theory Spec2Isabelle
  imports
    Complex_Main
    "HOL-Library.Product_Lexorder"
    "HOL-Library.List_Lexorder"
    "HOL-Library.Sublist"
    "HOL-Library.Multiset"
begin

section \<open>Card engine of \<^verbatim>\<open>texas_holdem.py\<close>\<close>

text \<open>
  A card is the Python tuple \<^verbatim>\<open>(rank, suit)\<close>. The only cards the program ever builds
  come from \<^verbatim>\<open>make_deck\<close>, whose ranks range over \<^verbatim>\<open>RANKS\<close> and whose suits range over
  \<^verbatim>\<open>SUITS\<close>, so both are enumerations here (a rank outside \<^verbatim>\<open>RANKS\<close>, for which
  \<^verbatim>\<open>RANK_VAL[...]\<close> would raise \<^verbatim>\<open>KeyError\<close>, is excluded by the type).
\<close>

datatype suit = Spades | Hearts | Diamonds | Clubs

datatype rank = R2 | R3 | R4 | R5 | R6 | R7 | R8 | R9 | R10 | RJ | RQ | RK | RA

type_synonym card = "rank \<times> suit"

datatype error = IndexError | TypeError | ZeroDivisionError | StopIteration

definition SUITS :: "suit list" where
  "SUITS = [Spades, Hearts, Diamonds, Clubs]"

definition RANKS :: "rank list" where
  "RANKS = [R2, R3, R4, R5, R6, R7, R8, R9, R10, RJ, RQ, RK, RA]"

text \<open>\<^verbatim>\<open>RANK_VAL = {r:i for i,r in enumerate(RANKS,2)}\<close>\<close>

fun RANK_VAL :: "rank \<Rightarrow> int" where
  "RANK_VAL R2 = 2"
| "RANK_VAL R3 = 3"
| "RANK_VAL R4 = 4"
| "RANK_VAL R5 = 5"
| "RANK_VAL R6 = 6"
| "RANK_VAL R7 = 7"
| "RANK_VAL R8 = 8"
| "RANK_VAL R9 = 9"
| "RANK_VAL R10 = 10"
| "RANK_VAL RJ = 11"
| "RANK_VAL RQ = 12"
| "RANK_VAL RK = 13"
| "RANK_VAL RA = 14"

text \<open>\<^verbatim>\<open>make_deck\<close>: \<^verbatim>\<open>[(r,s) for s in SUITS for r in RANKS]\<close>\<close>

definition make_deck :: "card list" where
  "make_deck = concat (map (\<lambda>s. map (\<lambda>r. (r, s)) RANKS) SUITS)"

text \<open>
  \<^verbatim>\<open>sorted(xs, reverse=True)\<close>. Python's sort is stable, which is invisible on the
  integers sorted here: equal integers are indistinguishable.
\<close>

definition sorted_desc :: "'a::linorder list \<Rightarrow> 'a list" where
  "sorted_desc xs = rev (sort xs)"

text \<open>\<^verbatim>\<open>list(range(v, v-5, -1))\<close>\<close>

definition range_down5 :: "int \<Rightarrow> int list" where
  "range_down5 v = map (\<lambda>k. v - int k) [0..<5]"

text \<open>
  A hand rank is the Python tuple \<^verbatim>\<open>(category, tie_break_list)\<close>. Python compares tuples
  lexicographically and lists lexicographically with a proper prefix smaller; these are
  the orders of \<open>Product_Lexorder\<close> and \<open>List_Lexorder\<close>.
\<close>

type_synonym hrank = "int \<times> int list"

text \<open>
  \<^verbatim>\<open>score_five\<close>. \<^verbatim>\<open>vals[0]\<close> raises \<^verbatim>\<open>IndexError\<close> on an empty hand. \<^verbatim>\<open>Counter(vals)\<close>
  is the function \<open>cnt\<close> on its keys, the distinct values of \<open>vals\<close>; both \<open>freq\<close> and
  \<open>grp\<close> sort what they read from the counter, and the sort key of \<open>grp\<close> is injective
  on the keys, so the counter's insertion order does not show in the result.
  \<^verbatim>\<open>freq[0]\<close> is \<open>hd freq\<close>: in that branch \<open>vals\<close>, hence \<open>freq\<close>, is not empty.
  The flag \<^verbatim>\<open>flush = len(set(suits))==1\<close> is \<open>flush_of\<close>; the length of the list without
  duplicates is the size of the set.
\<close>

definition flush_of :: "card list \<Rightarrow> bool" where
  "flush_of cards = (let suits = map snd cards in length (remdups suits) = 1)"

definition score_five :: "card list \<Rightarrow> error + hrank" where
  "score_five cards =
    (let vals0 = sorted_desc (map (\<lambda>c. RANK_VAL (fst c)) cards);
         flush = flush_of cards
     in case vals0 of
          [] \<Rightarrow> Inl IndexError
        | v0 # _ \<Rightarrow>
          (let st = (vals0 = range_down5 v0 \<or> vals0 = [14, 5, 4, 3, 2]);
               vals = (if st \<and> vals0 = [14, 5, 4, 3, 2] then [5, 4, 3, 2, 1] else vals0);
               keys = remdups vals;
               cnt = (\<lambda>v. int (count_list vals v));
               freq = sorted_desc (map cnt keys);
               grp = rev (sort_key (\<lambda>v. (cnt v, v)) keys)
           in Inr (if st \<and> flush then (8, vals)
                   else if freq = [4, 1] then (7, grp)
                   else if freq = [3, 2] then (6, grp)
                   else if flush then (5, vals)
                   else if st then (4, vals)
                   else if hd freq = 3 then (3, grp)
                   else if take 2 freq = [2, 2] then (2, grp)
                   else if hd freq = 2 then (1, grp)
                   else (0, vals))))"

text \<open>
  \<^verbatim>\<open>itertools.combinations(xs, k)\<close>: the \<open>k\<close>-element subsequences of \<open>xs\<close>, in
  lexicographic order of their index tuples.
\<close>

fun combinations :: "'a list \<Rightarrow> nat \<Rightarrow> 'a list list" where
  "combinations xs 0 = [[]]"
| "combinations [] (Suc k) = []"
| "combinations (x # xs) (Suc k) =
     map ((#) x) (combinations xs k) @ combinations xs (Suc k)"

text \<open>
  The loop of \<^verbatim>\<open>hand_rank\<close>: \<open>best\<close> starts as \<^verbatim>\<open>None\<close> and is replaced by every
  strictly greater score.
\<close>

fun hand_rank_loop :: "hrank option \<Rightarrow> card list list \<Rightarrow> error + hrank option" where
  "hand_rank_loop best [] = Inr best"
| "hand_rank_loop best (five # rest) =
     (case score_five five of
        Inl e \<Rightarrow> Inl e
      | Inr s \<Rightarrow>
          (case best of
             None \<Rightarrow> hand_rank_loop (Some s) rest
           | Some b \<Rightarrow> hand_rank_loop (if s > b then Some s else Some b) rest))"

definition hand_rank :: "card list \<Rightarrow> error + hrank option" where
  "hand_rank hand = hand_rank_loop None (combinations hand 5)"

section \<open>Equity estimator\<close>

text \<open>
  A Python slice \<^verbatim>\<open>xs[i:j]\<close> with integer bounds: a negative bound counts from the end,
  and both bounds are clamped to the list.
\<close>

definition py_bound :: "nat \<Rightarrow> int \<Rightarrow> nat" where
  "py_bound n i = (if i < 0 then nat (max 0 (int n + i)) else min (nat i) n)"

definition py_slice :: "'a list \<Rightarrow> int \<Rightarrow> int \<Rightarrow> 'a list" where
  "py_slice xs i j = drop (py_bound (length xs) i) (take (py_bound (length xs) j) xs)"

text \<open>
  \<^verbatim>\<open>hand_rank(a) >= hand_rank(b)\<close>: two tuples compare lexicographically; as soon as
  one side is \<^verbatim>\<open>None\<close> the comparison raises \<^verbatim>\<open>TypeError\<close>.
\<close>

definition rank_ge :: "error + hrank option \<Rightarrow> error + hrank option \<Rightarrow> error + bool" where
  "rank_ge a b =
    (case a of
       Inl e \<Rightarrow> Inl e
     | Inr x \<Rightarrow>
        (case b of
           Inl e \<Rightarrow> Inl e
         | Inr y \<Rightarrow>
            (case (x, y) of
               (Some r, Some r') \<Rightarrow> Inr (r \<ge> r')
             | _ \<Rightarrow> Inl TypeError)))"

text \<open>
  The trial loop of \<^verbatim>\<open>estimate_strength\<close>. \<^verbatim>\<open>random.shuffle(deck)\<close> permutes the list in
  place; the random source is the parameter \<open>shuf\<close>, where \<open>shuf t d\<close> is the order the
  \<open>t\<close>-th call leaves the list \<open>d\<close> in. The arguments are: trials left, index of the
  next shuffle, the current deck, the wins so far.
\<close>

fun estimate_loop ::
  "(nat \<Rightarrow> card list \<Rightarrow> card list) \<Rightarrow> card list \<Rightarrow> card list \<Rightarrow> int
     \<Rightarrow> nat \<Rightarrow> nat \<Rightarrow> card list \<Rightarrow> int \<Rightarrow> error + int" where
  "estimate_loop shuf hole cm needed 0 t dk wins = Inr wins"
| "estimate_loop shuf hole cm needed (Suc n) t dk wins =
     (let dk' = shuf t dk;
          board = cm @ py_slice dk' 0 needed;
          opp = py_slice dk' needed (needed + 2)
      in case rank_ge (hand_rank (hole @ board)) (hand_rank (opp @ board)) of
           Inl e \<Rightarrow> Inl e
         | Inr w \<Rightarrow>
             estimate_loop shuf hole cm needed n (Suc t) dk' (if w then wins + 1 else wins))"

text \<open>
  \<^verbatim>\<open>estimate_strength\<close>. \<^verbatim>\<open>range(trials)\<close> is empty for \<open>trials \<le> 0\<close>. The quotient
  \<^verbatim>\<open>wins/trials\<close> is a Python float; it is kept here as the exact rational it rounds,
  and \<^verbatim>\<open>trials = 0\<close> raises \<^verbatim>\<open>ZeroDivisionError\<close>.
\<close>

definition estimate_strength ::
  "(nat \<Rightarrow> card list \<Rightarrow> card list) \<Rightarrow> card list \<Rightarrow> card list \<Rightarrow> int \<Rightarrow> error + rat" where
  "estimate_strength shuf hole cm trials =
    (let dk = filter (\<lambda>c. c \<notin> set hole \<and> c \<notin> set cm) make_deck;
         needed = 5 - int (length cm)
     in case estimate_loop shuf hole cm needed (nat trials) 0 dk 0 of
          Inl e \<Rightarrow> Inl e
        | Inr wins \<Rightarrow>
            if trials = 0 then Inl ZeroDivisionError
            else Inr (of_int wins / of_int trials))"

section \<open>Bot decision policy\<close>

record player =
  name :: string
  stack :: int
  human :: bool
  hand :: "card list"
  folded :: bool
  bet :: int
  persona :: string

record diff_adj =
  fold_bias :: rat
  bluff :: rat
  raise_cap :: rat
  skill :: rat

datatype action = Fold | Check | Call | Raise

text \<open>\<^verbatim>\<open>DIFFICULTY_ADJ\<close>; the decimal literals of the source are written as fractions.\<close>

definition DIFFICULTY_ADJ :: "(string \<times> diff_adj) list" where
  "DIFFICULTY_ADJ =
    [(''easy'',   \<lparr>fold_bias = 10/100, bluff = 4/100,  raise_cap = 20/100, skill = - (8/100)\<rparr>),
     (''medium'', \<lparr>fold_bias = 5/100,  bluff = 6/100,  raise_cap = 30/100, skill = 0\<rparr>),
     (''hard'',   \<lparr>fold_bias = 0,      bluff = 10/100, raise_cap = 45/100, skill = 8/100\<rparr>)]"

text \<open>\<^verbatim>\<open>DIFFICULTY_ADJ.get(difficulty, DIFFICULTY_ADJ['medium'])\<close>\<close>

definition difficulty_adj :: "string \<Rightarrow> diff_adj" where
  "difficulty_adj difficulty =
    (case map_of DIFFICULTY_ADJ difficulty of
       Some d \<Rightarrow> d
     | None \<Rightarrow> \<lparr>fold_bias = 5/100, bluff = 6/100, raise_cap = 30/100, skill = 0\<rparr>)"

text \<open>\<^verbatim>\<open>persona_adj.get(player.get('persona',''), 0)\<close>\<close>

definition persona_adj :: "string \<Rightarrow> rat" where
  "persona_adj p =
    (case map_of [(''aggressive'', 10/100), (''tight'', - (12/100)), (''loose'', 4/100)] p of
       Some a \<Rightarrow> a
     | None \<Rightarrow> 0)"

text \<open>Python's \<^verbatim>\<open>int(x)\<close> on a float truncates toward zero.\<close>

definition py_int :: "rat \<Rightarrow> int" where
  "py_int x = (if 0 \<le> x then \<lfloor>x\<rfloor> else \<lceil>x\<rceil>)"

text \<open>
  The inner function \<^verbatim>\<open>safe_raise\<close>; \<open>u\<close> is the draw \<^verbatim>\<open>random.uniform(0.5,0.75)\<close>.
\<close>

definition safe_raise :: "int \<Rightarrow> int \<Rightarrow> int \<Rightarrow> diff_adj \<Rightarrow> rat \<Rightarrow> int" where
  "safe_raise pt stk min_raise d u =
    (let pot_bet = py_int (of_int pt * u);
         capped = min (min pot_bet (py_int (of_int stk * raise_cap d))) stk
     in max min_raise capped)"

text \<open>
  \<^verbatim>\<open>bot_decision\<close>. The floats of the source are exact rationals here. The random
  draws are parameters: \<open>shuf\<close> feeds the estimator (120 trials, the default),
  \<open>r_bluff\<close> is the \<^verbatim>\<open>random.random()\<close> of the bluff roll, \<open>r_act\<close> the one of the raise
  roll, \<open>u\<close> the \<^verbatim>\<open>random.uniform\<close> of \<^verbatim>\<open>safe_raise\<close>.
\<close>

definition bot_decision ::
  "(nat \<Rightarrow> card list \<Rightarrow> card list) \<Rightarrow> rat \<Rightarrow> rat \<Rightarrow> rat
     \<Rightarrow> player \<Rightarrow> card list \<Rightarrow> int \<Rightarrow> int \<Rightarrow> int \<Rightarrow> string \<Rightarrow> error + (action \<times> int)" where
  "bot_decision shuf r_bluff r_act u plr cm pt call_amt min_raise difficulty =
    (case estimate_strength shuf (hand plr) cm 120 of
       Inl e \<Rightarrow> Inl e
     | Inr s0 \<Rightarrow>
        (let d = difficulty_adj difficulty;
             s = max 0 (min 1 (s0 + persona_adj (persona plr) + skill d));
             stk = stack plr;
             blf = (r_bluff < bluff d);
             eff = (if blf then min 1 (s + 20/100) else s)
         in Inr
           (if call_amt = 0 then
              (if eff > 72/100 \<and> stk \<ge> min_raise \<and> r_act < 6/10
               then (Raise, safe_raise pt stk min_raise d u)
               else (Check, 0))
            else
              (let pot_odds = (if pt + call_amt > 0
                               then of_int call_amt / of_int (pt + call_amt) else 1)
               in if eff < pot_odds + fold_bias d \<and> \<not> blf then (Fold, 0)
                  else if eff < 55/100 then
                    (if call_amt \<le> py_int (of_int stk * (10/100))
                     then (Call, min call_amt stk) else (Fold, 0))
                  else if eff < 75/100 then (Call, min call_amt stk)
                  else if stk \<ge> min_raise \<and> r_act < 55/100
                  then (Raise, safe_raise pt stk min_raise d u)
                  else (Call, min call_amt stk)))))"

section \<open>Betting state machine (class \<^verbatim>\<open>App\<close>)\<close>

text \<open>
  The fields of \<^verbatim>\<open>App\<close> that the game logic reads or writes. The canvas, the history
  and log widgets, \<^verbatim>\<open>last_action\<close>, \<^verbatim>\<open>active_idx\<close>, \<^verbatim>\<open>stats\<close> and the buttons only feed
  the display and are left out, as are the calls \<^verbatim>\<open>redraw\<close>, \<^verbatim>\<open>log\<close>, \<^verbatim>\<open>hist\<close>,
  \<^verbatim>\<open>update_hand_info\<close>, \<^verbatim>\<open>clear_btns\<close> and the sounds. A player dictionary is a
  record; the list \<^verbatim>\<open>self.players\<close> holds the player objects, and a method that mutates
  a player object writes the list at that player's seat.
\<close>

record app =
  players :: "player list"
  comm :: "card list"
  pot :: int
  dealer :: nat
  hnum :: int
  hbet :: int
  aq :: "nat list"
  deck :: "card list"
  SB :: int
  BB :: int

text \<open>
  Every handler ends by registering the next handler with \<^verbatim>\<open>root.after\<close>, by calling it
  directly as its last statement, or by waiting for the player's decision. The handler
  to run next is returned together with the state: \<open>ToStreet name n\<close> is the callback
  \<^verbatim>\<open>lambda: self.street(name, [self.deck.pop(), ...])\<close> with \<open>n\<close> pops,
  \<open>AwaitAction idx call mr\<close> is the pending \<^verbatim>\<open>self.apply(idx, p, act, amt, call, mr)\<close> of
  \<^verbatim>\<open>human_turn\<close> or of the bot thread, whose \<open>act\<close> and \<open>amt\<close> are still to come.
\<close>

datatype pending =
    ToPreflop
  | ToNextAction
  | ToAdvance
  | ToStreet string nat
  | ToEndHand
  | AwaitAction nat int int
  | ToDealBtn
  | ToGameOver

text \<open>
  The search loops \<^verbatim>\<open>for off in range(1,5): i=(after+off)%4; if
  self.players[i]['stack']>0: ...\<close> of \<^verbatim>\<open>preflop\<close> (\<^verbatim>\<open>next_alive\<close>) and \<^verbatim>\<open>end_hand\<close>. The
  result is \<open>None\<close> when no seat qualifies.
\<close>

fun next_alive_from :: "player list \<Rightarrow> nat \<Rightarrow> nat list \<Rightarrow> error + nat option" where
  "next_alive_from ps after [] = Inr None"
| "next_alive_from ps after (off # offs) =
     (let i = (after + off) mod 4
      in if i \<ge> length ps then Inl IndexError
         else if stack (ps ! i) > 0 then Inr (Some i)
         else next_alive_from ps after offs)"

definition next_alive :: "player list \<Rightarrow> nat \<Rightarrow> error + nat option" where
  "next_alive ps after = next_alive_from ps after [1, 2, 3, 4]"

text \<open>
  One round of the blind loop of \<^verbatim>\<open>preflop\<close>, and the chip movement shared by \<^verbatim>\<open>call\<close>
  and \<^verbatim>\<open>raise\<close>: \<^verbatim>\<open>pd=min(a,p['stack']); p['stack']-=pd; p['bet']+=pd; self.pot+=pd\<close>.
\<close>

definition commit :: "app \<Rightarrow> nat \<Rightarrow> int \<Rightarrow> app" where
  "commit s i a =
    (let p = players s ! i;
         pd = min a (stack p)
     in s\<lparr>players := (players s)[i := p\<lparr>stack := stack p - pd, bet := bet p + pd\<rparr>],
          pot := pot s + pd\<rparr>)"

text \<open>
  The loop of \<^verbatim>\<open>preflop\<close> that builds the first action queue; \<^verbatim>\<open>seen\<close> always holds the
  elements of \<^verbatim>\<open>order\<close>. Arguments: iterations left, \<open>i\<close>, \<open>order\<close>.
\<close>

fun order_loop :: "player list \<Rightarrow> nat \<Rightarrow> nat \<Rightarrow> nat list \<Rightarrow> nat list" where
  "order_loop ps 0 i order = order"
| "order_loop ps (Suc n) i order =
     order_loop ps n ((i + 1) mod 4)
       (if stack (ps ! i) > 0 \<and> \<not> folded (ps ! i) \<and> i \<notin> set order
        then order @ [i] else order)"

text \<open>
  \<^verbatim>\<open>preflop\<close>. The comprehension for \<^verbatim>\<open>alive_idxs\<close> reads the seats 0 to 3, so fewer than
  four players raise \<^verbatim>\<open>IndexError\<close>. When \<^verbatim>\<open>next_alive\<close> returns \<^verbatim>\<open>None\<close>, indexing the
  player list with it raises \<^verbatim>\<open>TypeError\<close>.
\<close>

definition preflop :: "app \<Rightarrow> error + (pending \<times> app)" where
  "preflop s =
    (let s0 = s\<lparr>hbet := 0\<rparr>
     in if length (players s0) < 4 then Inl IndexError
        else
          (let alive_idxs = filter (\<lambda>i. stack (players s0 ! i) > 0) [0..<4]
           in if length alive_idxs < 2 then Inr (ToEndHand, s0)
              else
               (case next_alive (players s0) (dealer s0) of
                  Inl e \<Rightarrow> Inl e
                | Inr None \<Rightarrow> Inl TypeError
                | Inr (Some sbi) \<Rightarrow>
                   (case next_alive (players s0) sbi of
                      Inl e \<Rightarrow> Inl e
                    | Inr None \<Rightarrow> Inl TypeError
                    | Inr (Some bbi) \<Rightarrow>
                       (let s1 = commit s0 sbi (SB s0);
                            s2 = commit s1 bbi (BB s1);
                            s3 = s2\<lparr>hbet := bet (players s2 ! bbi)\<rparr>
                        in case next_alive (players s3) bbi of
                             Inl e \<Rightarrow> Inl e
                           | Inr None \<Rightarrow> Inl TypeError
                           | Inr (Some start) \<Rightarrow>
                               Inr (ToNextAction,
                                    s3\<lparr>aq := order_loop (players s3) 4 start []\<rparr>))))))"

text \<open>\<^verbatim>\<open>street\<close>\<close>

definition street :: "app \<Rightarrow> string \<Rightarrow> card list \<Rightarrow> error + (pending \<times> app)" where
  "street s nm cards =
    (let s1 = s\<lparr>comm := comm s @ cards,
                 players := map (\<lambda>p. p\<lparr>bet := 0\<rparr>) (players s),
                 hbet := 0\<rparr>;
         start = (dealer s1 + 1) mod 4
     in if length (players s1) < 4 then Inl IndexError
        else Inr (ToNextAction,
                  s1\<lparr>aq := map (\<lambda>i. (start + i) mod 4)
                              (filter (\<lambda>i. \<not> folded (players s1 ! ((start + i) mod 4))
                                          \<and> stack (players s1 ! ((start + i) mod 4)) > 0)
                                 [0..<4])\<rparr>))"

text \<open>\<^verbatim>\<open>self.deck.pop()\<close>, \<open>n\<close> times, in the order the list display evaluates them.\<close>

fun pops :: "card list \<Rightarrow> nat \<Rightarrow> error + (card list \<times> card list)" where
  "pops d 0 = Inr ([], d)"
| "pops d (Suc n) =
     (if d = [] then Inl IndexError
      else case pops (butlast d) n of
             Inl e \<Rightarrow> Inl e
           | Inr (cs, d') \<Rightarrow> Inr (last d # cs, d'))"

text \<open>\<^verbatim>\<open>next_action\<close>\<close>

definition next_action :: "app \<Rightarrow> error + (pending \<times> app)" where
  "next_action s =
    (let active = filter (\<lambda>p. \<not> folded p) (players s)
     in if length active \<le> 1 then Inr (ToEndHand, s)
        else if aq s = [] then Inr (ToAdvance, s)
        else
          (let idx = hd (aq s);
               s1 = s\<lparr>aq := tl (aq s)\<rparr>
           in if idx \<ge> length (players s1) then Inl IndexError
              else
                (let p = players s1 ! idx
                 in if folded p \<or> stack p = 0 then Inr (ToNextAction, s1)
                    else
                      (let call = max 0 (hbet s1 - bet p);
                           mr = max (BB s1) (hbet s1 * 2) - bet p
                       in Inr (AwaitAction idx call mr, s1)))))"

text \<open>\<^verbatim>\<open>advance\<close>\<close>

definition advance :: "app \<Rightarrow> error + (pending \<times> app)" where
  "advance s =
    (let active = filter (\<lambda>p. \<not> folded p) (players s);
         n = length (comm s)
     in if length active \<le> 1 then Inr (ToEndHand, s)
        else if n = 0 then Inr (ToStreet ''Flop'' 3, s)
        else if n = 3 then Inr (ToStreet ''Turn'' 1, s)
        else if n = 4 then Inr (ToStreet ''River'' 1, s)
        else Inr (ToEndHand, s))"

text \<open>
  The reopening loop of the \<^verbatim>\<open>raise\<close> branch of \<^verbatim>\<open>apply\<close>, over \<^verbatim>\<open>enumerate(self.players)\<close>;
  \<open>p\<close> is the raiser and \<^verbatim>\<open>q!=p\<close> compares the two dictionaries by value.
\<close>

fun reopen :: "player \<Rightarrow> int \<Rightarrow> (nat \<times> player) list \<Rightarrow> nat list \<Rightarrow> nat list" where
  "reopen p hb [] queue = queue"
| "reopen p hb ((i, q) # rest) queue =
     reopen p hb rest
       (if \<not> folded q \<and> q \<noteq> p \<and> stack q > 0 \<and> bet q < hb \<and> i \<notin> set queue
        then queue @ [i] else queue)"

text \<open>
  \<^verbatim>\<open>apply\<close>. Every caller passes \<^verbatim>\<open>p = self.players[idx]\<close>, which \<^verbatim>\<open>next_action\<close> has read
  before; the model takes \<open>idx\<close> alone and refuses a seat that does not exist. The
  source's \<open>act\<close> is one of the four strings built by \<^verbatim>\<open>human_turn\<close> and
  \<^verbatim>\<open>bot_decision\<close>.
\<close>

definition apply_action ::
  "app \<Rightarrow> nat \<Rightarrow> action \<Rightarrow> int \<Rightarrow> int \<Rightarrow> int \<Rightarrow> error + (pending \<times> app)" where
  "apply_action s idx act amt call mr =
    (if idx \<ge> length (players s) then Inl IndexError
     else
       (let p = players s ! idx
        in case act of
             Fold \<Rightarrow> Inr (ToNextAction, s\<lparr>players := (players s)[idx := p\<lparr>folded := True\<rparr>]\<rparr>)
           | Check \<Rightarrow> Inr (ToNextAction, s)
           | Call \<Rightarrow> Inr (ToNextAction, commit s idx call)
           | Raise \<Rightarrow>
               (let s1 = commit s idx (call + amt);
                    p1 = players s1 ! idx
                in if bet p1 > hbet s1
                   then Inr (ToNextAction,
                          s1\<lparr>hbet := bet p1,
                             aq := reopen p1 (bet p1)
                                     (zip [0..<length (players s1)] (players s1)) (aq s1)\<rparr>)
                   else Inr (ToNextAction, s1))))"

text \<open>
  The showdown ranking of \<^verbatim>\<open>end_hand\<close>: the list
  \<^verbatim>\<open>[(hand_rank(p['hand']+self.comm),p) for p in active]\<close>, with the seat standing for the
  player object. Two or more entries are compared by \<^verbatim>\<open>sorted\<close>, which raises
  \<^verbatim>\<open>TypeError\<close> on a rank \<^verbatim>\<open>None\<close>.
\<close>

fun collect_ranks :: "card list \<Rightarrow> player list \<Rightarrow> nat list \<Rightarrow> error + (hrank \<times> nat) list" where
  "collect_ranks cm ps [] = Inr []"
| "collect_ranks cm ps (i # is) =
     (case hand_rank (hand (ps ! i) @ cm) of
        Inl e \<Rightarrow> Inl e
      | Inr None \<Rightarrow> Inl TypeError
      | Inr (Some r) \<Rightarrow>
          (case collect_ranks cm ps is of
             Inl e \<Rightarrow> Inl e
           | Inr rs \<Rightarrow> Inr ((r, i) # rs)))"

text \<open>\<^verbatim>\<open>for w in winners: w['stack']+=split\<close>\<close>

fun pay :: "player list \<Rightarrow> nat list \<Rightarrow> int \<Rightarrow> player list" where
  "pay ps [] split = ps"
| "pay ps (w # ws) split = pay (ps[w := (ps ! w)\<lparr>stack := stack (ps ! w) + split\<rparr>]) ws split"

text \<open>The dealer rotation that closes \<^verbatim>\<open>end_hand\<close>.\<close>

definition rotate_dealer :: "app \<Rightarrow> error + (pending \<times> app)" where
  "rotate_dealer s =
    (case next_alive (players s) (dealer s) of
       Inl e \<Rightarrow> Inl e
     | Inr None \<Rightarrow> Inr (ToDealBtn, s)
     | Inr (Some nxt) \<Rightarrow> Inr (ToDealBtn, s\<lparr>dealer := nxt\<rparr>))"

text \<open>
  \<^verbatim>\<open>end_hand\<close>. \<^verbatim>\<open>sorted(..., reverse=True, key=...)\<close> is stable: entries of equal rank keep
  their order. With nobody left, \<^verbatim>\<open>ranked[0]\<close> raises \<^verbatim>\<open>IndexError\<close>.
\<close>

definition end_hand :: "app \<Rightarrow> error + (pending \<times> app)" where
  "end_hand s =
    (let active = filter (\<lambda>i. \<not> folded (players s ! i)) [0..<length (players s)]
     in if length active = 1
        then rotate_dealer (s\<lparr>players := pay (players s) [hd active] (pot s)\<rparr>)
        else
          (case collect_ranks (comm s) (players s) active of
             Inl e \<Rightarrow> Inl e
           | Inr rs \<Rightarrow>
              (let ranked = rev (sort_key fst (rev rs))
               in case ranked of
                    [] \<Rightarrow> Inl IndexError
                  | (best, _) # _ \<Rightarrow>
                     (let winners = map snd (filter (\<lambda>(r, i). r = best) ranked);
                          split = pot s div int (length winners)
                      in rotate_dealer (s\<lparr>players := pay (players s) winners split\<rparr>)))))"

text \<open>The dealing loop of \<^verbatim>\<open>start_hand\<close>.\<close>

fun deal :: "player list \<Rightarrow> card list \<Rightarrow> error + (player list \<times> card list)" where
  "deal [] d = Inr ([], d)"
| "deal (p # ps) d =
     (if stack p > 0 then
        (case pops d 2 of
           Inl e \<Rightarrow> Inl e
         | Inr (h, d') \<Rightarrow>
            (case deal ps d' of
               Inl e \<Rightarrow> Inl e
             | Inr (ps', d'') \<Rightarrow> Inr (p\<lparr>hand := h, folded := False, bet := 0\<rparr> # ps', d'')))
      else
        (case deal ps d of
           Inl e \<Rightarrow> Inl e
         | Inr (ps', d'') \<Rightarrow> Inr (p\<lparr>hand := [], folded := True, bet := 0\<rparr> # ps', d'')))"

text \<open>
  \<^verbatim>\<open>start_hand\<close>; \<open>shuffled\<close> is the order \<^verbatim>\<open>random.shuffle\<close> leaves the new deck in.
  \<^verbatim>\<open>next(p for p in self.players if p['human'])\<close> raises \<^verbatim>\<open>StopIteration\<close> without a human
  player.
\<close>

definition start_hand :: "app \<Rightarrow> (card list \<Rightarrow> card list) \<Rightarrow> error + (pending \<times> app)" where
  "start_hand s shuffled =
    (case find human (players s) of
       None \<Rightarrow> Inl StopIteration
     | Some me \<Rightarrow>
        if stack me = 0 then Inr (ToGameOver, s)
        else
          (let alive = filter (\<lambda>p. stack p > 0) (players s)
           in if length alive = 1 \<and> human (hd alive) then Inr (ToGameOver, s)
              else
                (let s1 = s\<lparr>hnum := hnum s + 1, comm := [], pot := 0\<rparr>
                 in case deal (players s1) (shuffled make_deck) of
                      Inl e \<Rightarrow> Inl e
                    | Inr (ps, d) \<Rightarrow> Inr (ToPreflop, s1\<lparr>players := ps, deck := d\<rparr>))))"

text \<open>
  Running the pending handler. A decision \<open>(act, amt)\<close> is consumed only by a pending
  \<^verbatim>\<open>apply\<close>; \<^verbatim>\<open>deal_btn\<close> and \<^verbatim>\<open>game_over\<close> wait for a click and belong to no hand.
\<close>

fun fire :: "action \<times> int \<Rightarrow> pending \<times> app \<Rightarrow> error + (pending \<times> app)" where
  "fire inp (ToPreflop, s) = preflop s"
| "fire inp (ToNextAction, s) = next_action s"
| "fire inp (ToAdvance, s) = advance s"
| "fire inp (ToStreet nm n, s) =
     (case pops (deck s) n of
        Inl e \<Rightarrow> Inl e
      | Inr (cs, d) \<Rightarrow> street (s\<lparr>deck := d\<rparr>) nm cs)"
| "fire inp (ToEndHand, s) = end_hand s"
| "fire inp (AwaitAction idx call mr, s) = apply_action s idx (fst inp) (snd inp) call mr"
| "fire inp (ToDealBtn, s) = Inr (ToDealBtn, s)"
| "fire inp (ToGameOver, s) = Inr (ToGameOver, s)"

text \<open>
  A hand in progress: the handlers run one after the other, each decision of the list
  answering the handler that runs at that point, and the run stops in front of
  \<^verbatim>\<open>end_hand\<close>, where the pot is distributed.
\<close>

fun play :: "(action \<times> int) list \<Rightarrow> pending \<times> app \<Rightarrow> error + (pending \<times> app)" where
  "play [] c = Inr c"
| "play (inp # inps) (k, s) =
     (if k = ToEndHand then Inr (k, s)
      else case fire inp (k, s) of
             Inl e \<Rightarrow> Inl e
           | Inr c' \<Rightarrow> play inps c')"

text \<open>The chips on the table: every stack and the pot.\<close>

definition chips :: "app \<Rightarrow> int" where
  "chips s = sum_list (map stack (players s)) + pot s"

section \<open>Example tables\<close>

text \<open>A seat as \<^verbatim>\<open>App.__init__\<close> builds it, with the given stack, bet and fold flag.\<close>

definition seat :: "string \<Rightarrow> bool \<Rightarrow> string \<Rightarrow> int \<Rightarrow> int \<Rightarrow> bool \<Rightarrow> card list \<Rightarrow> player" where
  "seat nm hu pe st bt fo cs =
     \<lparr>name = nm, stack = st, human = hu, hand = cs, folded = fo, bet = bt, persona = pe\<rparr>"

text \<open>
  Preflop with blinds 25/50 and the dealer in seat 3: seat 0 (A) posted the small blind,
  seat 1 (B) the big blind; seats 2 (C) and 3 (D) have called 50, A has completed to 50,
  and B, the last in the queue, is about to act with nothing to call.
\<close>

definition table_before_raise :: app where
  "table_before_raise =
     \<lparr>players = [seat ''You'' True [] 950 50 False [(RA, Spades), (RK, Spades)],
                 seat ''Liam'' False ''aggressive'' 950 50 False [(RQ, Hearts), (RQ, Clubs)],
                 seat ''Noah'' False ''tight'' 950 50 False [(R9, Diamonds), (R8, Diamonds)],
                 seat ''Emma'' False ''loose'' 950 50 False [(R7, Clubs), (R2, Hearts)]],
      comm = [], pot = 200, dealer = 3, hnum = 1, hbet = 50, aq = [], deck = [],
      SB = 25, BB = 50\<rparr>"

text \<open>The same table once B has raised by 100.\<close>

definition table_after_raise :: app where
  "table_after_raise =
     \<lparr>players = [seat ''You'' True [] 950 50 False [(RA, Spades), (RK, Spades)],
                 seat ''Liam'' False ''aggressive'' 850 150 False [(RQ, Hearts), (RQ, Clubs)],
                 seat ''Noah'' False ''tight'' 950 50 False [(R9, Diamonds), (R8, Diamonds)],
                 seat ''Emma'' False ''loose'' 950 50 False [(R7, Clubs), (R2, Hearts)]],
      comm = [], pot = 300, dealer = 3, hnum = 1, hbet = 150, aq = [0, 2, 3], deck = [],
      SB = 25, BB = 50\<rparr>"

text \<open>
  Seat 1 holds 30 chips and faces a bet of 100; seats 2 and 3 are still to act. The
  all-in button of \<^verbatim>\<open>human_turn\<close> and the bot both reach \<^verbatim>\<open>apply\<close> with a raise here.
\<close>

definition table_short_stack :: app where
  "table_short_stack =
     \<lparr>players = [seat ''You'' True [] 900 100 False [(RA, Spades), (RK, Spades)],
                 seat ''Liam'' False ''aggressive'' 30 0 False [(RQ, Hearts), (RQ, Clubs)],
                 seat ''Noah'' False ''tight'' 1000 0 False [(R9, Diamonds), (R8, Diamonds)],
                 seat ''Emma'' False ''loose'' 1000 0 False [(R7, Clubs), (R2, Hearts)]],
      comm = [(R3, Spades), (R4, Hearts), (RJ, Clubs)], pot = 400, dealer = 3, hnum = 1,
      hbet = 100, aq = [2, 3], deck = [], SB = 25, BB = 50\<rparr>"

text \<open>
  A game about to deal a hand: four stacks of 1000, blinds 25/50, the dealer in seat 3.
  The shuffle used with it below leaves the new deck in reverse order.
\<close>

definition table_new_hand :: app where
  "table_new_hand =
     \<lparr>players = [seat ''You'' True [] 1000 0 False [],
                 seat ''Liam'' False ''aggressive'' 1000 0 False [],
                 seat ''Noah'' False ''tight'' 1000 0 False [],
                 seat ''Emma'' False ''loose'' 1000 0 False []],
      comm = [], pot = 0, dealer = 3, hnum = 0, hbet = 0, aq = [], deck = [],
      SB = 25, BB = 50\<rparr>"

text \<open>
  The decisions of a hand on that table, one entry per handler run (an entry is read only
  by a pending \<^verbatim>\<open>apply\<close>): blinds, then seat 2 raises by 100, seat 3 folds, seat 0 calls,
  seat 1 calls, and the flop is dealt.
\<close>

definition hand_inputs :: "(action \<times> int) list" where
  "hand_inputs =
     [(Check, 0), (Check, 0), (Raise, 100), (Check, 0), (Fold, 0), (Check, 0), (Call, 0),
      (Check, 0), (Call, 0), (Check, 0), (Check, 0), (Check, 0), (Check, 0)]"

definition table_dealt :: app where
  "table_dealt = (case start_hand table_new_hand rev of Inr (k, s) \<Rightarrow> s | Inl e \<Rightarrow> table_new_hand)"

definition table_on_flop :: app where
  "table_on_flop =
     (case play hand_inputs (ToPreflop, table_dealt) of Inr (k, s) \<Rightarrow> s | Inl e \<Rightarrow> table_dealt)"

section \<open>The hand evaluator\<close>

lemma sort_cong_mset: "mset xs = mset ys \<Longrightarrow> sort xs = sort ys"
  by (metis properties_for_sort sorted_sort mset_sort)

lemma in_set_combinations:
  "ys \<in> set (combinations xs k) \<longleftrightarrow> subseq ys xs \<and> length ys = k"
proof (induction xs k arbitrary: ys rule: combinations.induct)
  case (1 xs)
  then show ?case by auto
next
  case (2 k)
  then show ?case by auto
next
  case (3 x xs k)
  show ?case
  proof (cases ys)
    case Nil
    then show ?thesis using 3 by auto
  next
    case (Cons y zs)
    then show ?thesis using 3 by (auto dest: subseq_Cons')
  qed
qed

lemma score_five_Inr: "cards \<noteq> [] \<Longrightarrow> \<exists>r. score_five cards = Inr r"
proof -
  assume "cards \<noteq> []"
  moreover have "length (sorted_desc (map (\<lambda>c. RANK_VAL (fst c)) cards)) = length cards"
    by (simp add: sorted_desc_def)
  ultimately have "sorted_desc (map (\<lambda>c. RANK_VAL (fst c)) cards) \<noteq> []"
    by (metis length_0_conv)
  then obtain v0 vs where "sorted_desc (map (\<lambda>c. RANK_VAL (fst c)) cards) = v0 # vs"
    by (cases "sorted_desc (map (\<lambda>c. RANK_VAL (fst c)) cards)") auto
  then show ?thesis
    by (simp add: score_five_def Let_def)
qed

lemma score_five_mset:
  assumes "mset cs = mset ds"
  shows "score_five cs = score_five ds"
proof -
  have "mset (map (\<lambda>c. RANK_VAL (fst c)) cs) = mset (map (\<lambda>c. RANK_VAL (fst c)) ds)"
    using assms by (metis mset_map)
  then have v: "sorted_desc (map (\<lambda>c. RANK_VAL (fst c)) cs) = sorted_desc (map (\<lambda>c. RANK_VAL (fst c)) ds)"
    unfolding sorted_desc_def by (simp add: sort_cong_mset)
  have "set (map snd cs) = set (map snd ds)"
    using assms by (metis mset_map set_mset_mset)
  then have f: "flush_of cs = flush_of ds"
    by (simp add: flush_of_def length_remdups_card_conv)
  show ?thesis
    unfolding score_five_def using v f by simp
qed

lemma hand_rank_loop_max:
  assumes "\<forall>f\<in>set fs. f \<noteq> []"
  shows "\<exists>m. hand_rank_loop best fs = Inr m
           \<and> (fs \<noteq> [] \<or> best \<noteq> None \<longrightarrow> m \<noteq> None)
           \<and> (\<forall>r. m = Some r \<longrightarrow>
                 (best = Some r \<or> (\<exists>f\<in>set fs. score_five f = Inr r))
               \<and> (\<forall>b. best = Some b \<longrightarrow> b \<le> r)
               \<and> (\<forall>f\<in>set fs. \<forall>s. score_five f = Inr s \<longrightarrow> s \<le> r))"
  using assms
proof (induction fs arbitrary: best)
  case Nil
  then show ?case by simp
next
  case (Cons five rest)
  from Cons.prems obtain s where s: "score_five five = Inr s"
    using score_five_Inr by force
  let ?b = "case best of None \<Rightarrow> Some s | Some b \<Rightarrow> (if s > b then Some s else Some b)"
  have step: "hand_rank_loop best (five # rest) = hand_rank_loop ?b rest"
    using s by (simp split: option.splits)
  from Cons.prems have "\<forall>f\<in>set rest. f \<noteq> []" by simp
  from Cons.IH[OF this, of ?b] obtain m where
    m: "hand_rank_loop ?b rest = Inr m"
    and ne: "rest \<noteq> [] \<or> ?b \<noteq> None \<longrightarrow> m \<noteq> None"
    and mx: "\<forall>r. m = Some r \<longrightarrow>
                 (?b = Some r \<or> (\<exists>f\<in>set rest. score_five f = Inr r))
               \<and> (\<forall>b. ?b = Some b \<longrightarrow> b \<le> r)
               \<and> (\<forall>f\<in>set rest. \<forall>s. score_five f = Inr s \<longrightarrow> s \<le> r)"
    by blast
  have bne: "?b \<noteq> None" by (simp split: option.splits)
  have third: "(best = Some r \<or> (\<exists>f\<in>set (five # rest). score_five f = Inr r))
               \<and> (\<forall>b. best = Some b \<longrightarrow> b \<le> r)
               \<and> (\<forall>f\<in>set (five # rest). \<forall>s. score_five f = Inr s \<longrightarrow> s \<le> r)"
    if r: "m = Some r" for r
  proof -
    from r mx have a: "?b = Some r \<or> (\<exists>f\<in>set rest. score_five f = Inr r)"
      and b: "\<forall>b. ?b = Some b \<longrightarrow> b \<le> r"
      and c: "\<forall>f\<in>set rest. \<forall>s. score_five f = Inr s \<longrightarrow> s \<le> r" by blast+
    have p1: "best = Some r \<or> (\<exists>f\<in>set (five # rest). score_five f = Inr r)"
      using a s by (auto split: option.splits if_splits)
    have bge: "\<exists>x. ?b = Some x \<and> s \<le> x \<and> (\<forall>b0. best = Some b0 \<longrightarrow> b0 \<le> x)"
    proof (cases best)
      case None
      then show ?thesis by (intro exI[of _ s]) simp
    next
      case (Some a)
      show ?thesis
      proof (cases "a < s")
        case True
        with Some show ?thesis by (intro exI[of _ s]) (simp add: less_imp_le)
      next
        case False
        then have "s \<le> a" by (simp add: not_less)
        with Some False show ?thesis by (intro exI[of _ a]) simp
      qed
    qed
    then obtain x where x: "?b = Some x" "s \<le> x" "\<forall>b0. best = Some b0 \<longrightarrow> b0 \<le> x"
      by blast
    from b x(1) have xr: "x \<le> r" by blast
    have p2: "b0 \<le> r" if "best = Some b0" for b0
    proof -
      from that x(3) have "b0 \<le> x" by blast
      then show ?thesis using xr by (rule order_trans)
    qed
    have sr: "s \<le> r" using x(2) xr by (rule order_trans)
    have p3: "s' \<le> r" if "f \<in> set (five # rest)" "score_five f = Inr s'" for f s'
    proof (cases "f = five")
      case True
      with that(2) s have "s' = s" by simp
      with sr show ?thesis by simp
    next
      case False
      with that(1) have "f \<in> set rest" by simp
      with c that(2) show ?thesis by blast
    qed
    show ?thesis using p1 p2 p3 by blast
  qed
  show ?case
  proof (intro exI[of _ m] conjI)
    show "hand_rank_loop best (five # rest) = Inr m" using step m by simp
    show "five # rest \<noteq> [] \<or> best \<noteq> None \<longrightarrow> m \<noteq> None" using ne bne by blast
    show "\<forall>r. m = Some r \<longrightarrow>
            (best = Some r \<or> (\<exists>f\<in>set (five # rest). score_five f = Inr r))
          \<and> (\<forall>b. best = Some b \<longrightarrow> b \<le> r)
          \<and> (\<forall>f\<in>set (five # rest). \<forall>s. score_five f = Inr s \<longrightarrow> s \<le> r)"
    proof (intro allI impI)
      fix r assume "m = Some r"
      then show "(best = Some r \<or> (\<exists>f\<in>set (five # rest). score_five f = Inr r))
          \<and> (\<forall>b. best = Some b \<longrightarrow> b \<le> r)
          \<and> (\<forall>f\<in>set (five # rest). \<forall>s. score_five f = Inr s \<longrightarrow> s \<le> r)"
        by (rule third)
    qed
  qed
qed

lemma subset_is_perm_of_subseq:
  assumes "distinct cs" "distinct five" "set five \<subseteq> set cs"
  shows "\<exists>g. subseq g cs \<and> mset g = mset five"
proof -
  let ?g = "filter (\<lambda>x. x \<in> set five) cs"
  have "subseq ?g cs" by simp
  moreover have "set ?g = set five" using assms(3) by auto
  moreover have "distinct ?g" using assms(1) by simp
  ultimately show ?thesis using assms(2)
    by (metis set_eq_iff_mset_eq_distinct)
qed

text \<open>
  Claim C3. For a collection \<open>cs\<close> of five to seven distinct cards, \<^verbatim>\<open>hand_rank\<close> returns a
  rank \<open>m\<close> that is the score of a five-card subsequence of \<open>cs\<close> and is greater than or
  equal to the score of every five-card subset of \<open>cs\<close>, in whatever order the subset is
  listed: the maximum of \<^verbatim>\<open>score_five\<close> over all five-card subsets, under the
  lexicographic order on (category, tie-break list).
\<close>

theorem hand_rank_is_max:
  assumes "distinct cs" and "5 \<le> length cs" and "length cs \<le> 7"
  shows "\<exists>m. hand_rank cs = Inr (Some m)
          \<and> (\<exists>five. subseq five cs \<and> length five = 5 \<and> score_five five = Inr m)
          \<and> (\<forall>five. distinct five \<and> set five \<subseteq> set cs \<and> length five = 5
                \<longrightarrow> (\<exists>s. score_five five = Inr s \<and> s \<le> m))"
proof -
  let ?fs = "combinations cs 5"
  have ne: "\<forall>f\<in>set ?fs. f \<noteq> []"
    by (auto simp: in_set_combinations)
  have "subseq (take 5 cs) cs \<and> length (take 5 cs) = 5"
    using assms(2) by (metis append_take_drop_id length_take min.absorb2 prefix_imp_subseq take_is_prefix)
  then have fsne: "?fs \<noteq> []"
    by (metis in_set_combinations empty_iff list.set(1))
  from hand_rank_loop_max[OF ne, of None] obtain m where
    m: "hand_rank_loop None ?fs = Inr m" and mne: "m \<noteq> None"
    and mx: "\<forall>r. m = Some r \<longrightarrow>
                 (None = Some r \<or> (\<exists>f\<in>set ?fs. score_five f = Inr r))
               \<and> (\<forall>f\<in>set ?fs. \<forall>s. score_five f = Inr s \<longrightarrow> s \<le> r)"
    using fsne by blast
  from mne obtain r where r: "m = Some r" by auto
  with mx obtain f where f: "f \<in> set ?fs" "score_five f = Inr r" by auto
  have ub: "\<forall>f\<in>set ?fs. \<forall>s. score_five f = Inr s \<longrightarrow> s \<le> r" using mx r by blast
  have "\<exists>s. score_five five = Inr s \<and> s \<le> r"
    if h: "distinct five \<and> set five \<subseteq> set cs \<and> length five = 5" for five
  proof -
    from subset_is_perm_of_subseq[of cs five] h assms(1)
    obtain g where g: "subseq g cs" "mset g = mset five" by blast
    then have "length g = 5" using h by (metis size_mset)
    with g have gin: "g \<in> set ?fs" by (simp add: in_set_combinations)
    have "five \<noteq> []" using h by auto
    then obtain s where s: "score_five five = Inr s" using score_five_Inr by blast
    then have "score_five g = Inr s" using score_five_mset[OF g(2)] by simp
    with ub gin have "s \<le> r" by blast
    with s show ?thesis by blast
  qed
  then show ?thesis
    using m r f by (auto simp: hand_rank_def in_set_combinations)
qed

theorem hand_rank_is_max_witness:
  "\<exists>m. hand_rank [(R6, Spades), (R6, Hearts), (R4, Diamonds), (R4, Clubs), (R2, Spades),
                     (R2, Hearts), (RA, Clubs)] = Inr (Some m)
       \<and> (\<exists>five. subseq five [(R6, Spades), (R6, Hearts), (R4, Diamonds), (R4, Clubs),
                                 (R2, Spades), (R2, Hearts), (RA, Clubs)]
                  \<and> length five = 5 \<and> score_five five = Inr m)
       \<and> (\<forall>five. distinct five
                  \<and> set five \<subseteq> set [(R6, Spades), (R6, Hearts), (R4, Diamonds), (R4, Clubs),
                                      (R2, Spades), (R2, Hearts), (RA, Clubs)]
                  \<and> length five = 5
                \<longrightarrow> (\<exists>s. score_five five = Inr s \<and> s \<le> m))"
  by (rule hand_rank_is_max) simp_all


lemma wheel_vals:
  assumes "mset (map fst cs) = {#RA, R2, R3, R4, R5#}"
  shows "sorted_desc (map (\<lambda>c. RANK_VAL (fst c)) cs) = [14, 5, 4, 3, 2]"
proof -
  have "mset (map RANK_VAL (map fst cs)) = image_mset RANK_VAL {#RA, R2, R3, R4, R5#}"
    using assms by (metis mset_map)
  then have "mset (map (\<lambda>c. RANK_VAL (fst c)) cs) = mset [2, 3, 4, 5, 14]"
    by (simp add: comp_def)
  then have "sort (map (\<lambda>c. RANK_VAL (fst c)) cs) = sort [2, 3, 4, 5, 14]"
    by (rule sort_cong_mset)
  then show ?thesis by (simp add: sorted_desc_def)
qed

lemma six_high_vals:
  assumes "mset (map fst cs) = {#R6, R5, R4, R3, R2#}"
  shows "sorted_desc (map (\<lambda>c. RANK_VAL (fst c)) cs) = [6, 5, 4, 3, 2]"
proof -
  have "mset (map RANK_VAL (map fst cs)) = image_mset RANK_VAL {#R6, R5, R4, R3, R2#}"
    using assms by (metis mset_map)
  then have "mset (map (\<lambda>c. RANK_VAL (fst c)) cs) = mset [2, 3, 4, 5, 6]"
    by (simp add: comp_def)
  then have "sort (map (\<lambda>c. RANK_VAL (fst c)) cs) = sort [2, 3, 4, 5, 6]"
    by (rule sort_cong_mset)
  then show ?thesis by (simp add: sorted_desc_def)
qed

lemma score_five_wheel:
  assumes "mset (map fst cs) = {#RA, R2, R3, R4, R5#}"
  shows "score_five cs = Inr (if flush_of cs then 8 else 4, [5, 4, 3, 2, 1])"
  unfolding score_five_def wheel_vals[OF assms]
  by (simp add: Let_def range_down5_def sorted_desc_def)

lemma score_five_six_high:
  assumes "mset (map fst cs) = {#R6, R5, R4, R3, R2#}"
  shows "score_five cs = Inr (if flush_of cs then 8 else 4, [6, 5, 4, 3, 2])"
  unfolding score_five_def six_high_vals[OF assms]
  by (simp add: Let_def range_down5_def sorted_desc_def upt_rec)

lemma wheel_tiebreak_less: "([5, 4, 3, 2, 1] :: int list) < [6, 5, 4, 3, 2]"
  by (simp add: list_less_def)

lemma flush_of_same_suit:
  assumes "cs \<noteq> []"
  shows "flush_of cs = (\<exists>st. \<forall>c\<in>set cs. snd c = st)"
proof -
  have "flush_of cs = (card (snd ` set cs) = 1)"
    by (simp add: flush_of_def length_remdups_card_conv)
  also have "\<dots> = (\<exists>st. snd ` set cs = {st})"
    by (simp add: card_1_singleton_iff)
  also have "\<dots> = (\<exists>st. \<forall>c\<in>set cs. snd c = st)"
  proof
    assume "\<exists>st. snd ` set cs = {st}"
    then obtain st where "snd ` set cs = {st}" ..
    then have "\<forall>c\<in>set cs. snd c = st" by blast
    then show "\<exists>st. \<forall>c\<in>set cs. snd c = st" ..
  next
    assume "\<exists>st. \<forall>c\<in>set cs. snd c = st"
    then obtain st where a: "\<forall>c\<in>set cs. snd c = st" ..
    from assms have "hd cs \<in> set cs" by simp
    with a have "snd ` set cs = {st}" by (auto simp: image_iff)
    then show "\<exists>st. snd ` set cs = {st}" ..
  qed
  finally show ?thesis .
qed

text \<open>
  Claim C4. A five-card hand whose ranks are A, 2, 3, 4, 5 is scored as a straight with
  the tie-break list [5,4,3,2,1] (the ace counts 1): category 8 when the five cards share
  a suit, category 4 otherwise. A hand whose ranks are 6, 5, 4, 3, 2 is scored the same
  way with [6,5,4,3,2]. So a wheel straight flush is strictly below a six-high straight
  flush, and a wheel straight strictly below a six-high straight.
\<close>

theorem wheel_below_six_high:
  assumes w: "mset (map fst w) = {#RA, R2, R3, R4, R5#}"
      and x: "mset (map fst x) = {#R6, R5, R4, R3, R2#}"
  shows "score_five w = Inr (if flush_of w then 8 else 4, [5, 4, 3, 2, 1])
       \<and> score_five x = Inr (if flush_of x then 8 else 4, [6, 5, 4, 3, 2])
       \<and> (\<forall>a b. score_five w = Inr a \<and> score_five x = Inr b \<and> flush_of w = flush_of x
              \<longrightarrow> a < b)"
proof (intro conjI allI impI)
  show sw: "score_five w = Inr (if flush_of w then 8 else 4, [5, 4, 3, 2, 1])"
    by (rule score_five_wheel[OF w])
  show sx: "score_five x = Inr (if flush_of x then 8 else 4, [6, 5, 4, 3, 2])"
    by (rule score_five_six_high[OF x])
  fix a b
  assume h: "score_five w = Inr a \<and> score_five x = Inr b \<and> flush_of w = flush_of x"
  from h have fl: "flush_of w = flush_of x" by (rule conjunct2[OF conjunct2])
  from h have "Inr a = score_five w" by simp
  then have a: "a = (if flush_of x then 8 else 4, [5, 4, 3, 2, 1])"
    unfolding sw fl by simp
  from h have "Inr b = score_five x" by simp
  then have b: "b = (if flush_of x then 8 else 4, [6, 5, 4, 3, 2])"
    unfolding sx by simp
  show "a < b"
    unfolding a b using wheel_tiebreak_less by (simp add: less_prod_def)
qed

theorem wheel_below_six_high_witness:
  "score_five [(R5, Spades), (R4, Hearts), (R3, Diamonds), (R2, Clubs), (RA, Spades)]
     = Inr (4, [5, 4, 3, 2, 1])
   \<and> score_five [(R6, Spades), (R5, Hearts), (R4, Diamonds), (R3, Clubs), (R2, Spades)]
     = Inr (4, [6, 5, 4, 3, 2])
   \<and> ((4, [5, 4, 3, 2, 1]) :: hrank) < (4, [6, 5, 4, 3, 2])"
proof -
  let ?w = "[(R5, Spades), (R4, Hearts), (R3, Diamonds), (R2, Clubs), (RA, Spades)]"
  let ?x = "[(R6, Spades), (R5, Hearts), (R4, Diamonds), (R3, Clubs), (R2, Spades)]"
  have w: "mset (map fst ?w) = {#RA, R2, R3, R4, R5#}" by (simp add: add_mset_commute)
  have x: "mset (map fst ?x) = {#R6, R5, R4, R3, R2#}" by simp
  have fw: "\<not> flush_of ?w" by (simp add: flush_of_def)
  have fx: "\<not> flush_of ?x" by (simp add: flush_of_def)
  note t = wheel_below_six_high[OF w x]
  from t have 1: "score_five ?w = Inr (4, [5, 4, 3, 2, 1])" using fw by simp
  from t have 2: "score_five ?x = Inr (4, [6, 5, 4, 3, 2])" using fx by simp
  from t have "\<forall>a b. score_five ?w = Inr a \<and> score_five ?x = Inr b \<and> flush_of ?w = flush_of ?x
              \<longrightarrow> a < b" by (rule conjunct2[OF conjunct2])
  then have 3: "((4, [5, 4, 3, 2, 1]) :: hrank) < (4, [6, 5, 4, 3, 2])"
    using 1 2 fw fx by blast
  show ?thesis using 1 2 3 by (intro conjI)
qed

section \<open>Applying an action\<close>

lemma commit_fields [simp]:
  "hbet (commit s i a) = hbet s" "aq (commit s i a) = aq s"
  "length (players (commit s i a)) = length (players s)"
  "comm (commit s i a) = comm s" "dealer (commit s i a) = dealer s"
  "SB (commit s i a) = SB s" "BB (commit s i a) = BB s" "deck (commit s i a) = deck s"
  by (simp_all add: commit_def Let_def)

lemma commit_player_same:
  "i < length (players s) \<Longrightarrow>
   players (commit s i a) ! i =
     (players s ! i)\<lparr>stack := stack (players s ! i) - min a (stack (players s ! i)),
                      bet := bet (players s ! i) + min a (stack (players s ! i))\<rparr>"
  by (simp add: commit_def Let_def)

lemma commit_player_other:
  "j \<noteq> i \<Longrightarrow> players (commit s i a) ! j = players s ! j"
  by (simp add: commit_def Let_def)

lemma commit_pot: "pot (commit s i a) = pot s + min a (stack (players s ! i))"
  by (simp add: commit_def Let_def)

text \<open>The reopening loop appends, in seat order, the seats that pass its test.\<close>

lemma reopen_filter:
  assumes "distinct (map fst iqs)"
  shows "reopen p hb iqs queue =
           queue @ map fst (filter (\<lambda>iq. \<not> folded (snd iq) \<and> snd iq \<noteq> p \<and> stack (snd iq) > 0
                                       \<and> bet (snd iq) < hb \<and> fst iq \<notin> set queue) iqs)"
  using assms
proof (induction iqs arbitrary: queue)
  case Nil
  then show ?case by simp
next
  case (Cons iq iqs)
  obtain i q where iq: "iq = (i, q)" by (cases iq)
  let ?c = "\<not> folded q \<and> q \<noteq> p \<and> stack q > 0 \<and> bet q < hb \<and> i \<notin> set queue"
  let ?queue' = "if ?c then queue @ [i] else queue"
  from Cons.prems iq have inotin: "i \<notin> fst ` set iqs" and d: "distinct (map fst iqs)"
    by auto
  have same: "filter (\<lambda>iq. \<not> folded (snd iq) \<and> snd iq \<noteq> p \<and> stack (snd iq) > 0
                          \<and> bet (snd iq) < hb \<and> fst iq \<notin> set ?queue') iqs
            = filter (\<lambda>iq. \<not> folded (snd iq) \<and> snd iq \<noteq> p \<and> stack (snd iq) > 0
                          \<and> bet (snd iq) < hb \<and> fst iq \<notin> set queue) iqs"
    using inotin by (intro filter_cong) (auto simp: image_iff)
  have "reopen p hb (iq # iqs) queue = reopen p hb iqs ?queue'"
    unfolding iq by simp
  also have "\<dots> = ?queue' @ map fst (filter (\<lambda>iq. \<not> folded (snd iq) \<and> snd iq \<noteq> p
                          \<and> stack (snd iq) > 0 \<and> bet (snd iq) < hb \<and> fst iq \<notin> set ?queue') iqs)"
    by (rule Cons.IH[OF d])
  also have "\<dots> = queue @ map fst (filter (\<lambda>iq. \<not> folded (snd iq) \<and> snd iq \<noteq> p
                          \<and> stack (snd iq) > 0 \<and> bet (snd iq) < hb \<and> fst iq \<notin> set queue) (iq # iqs))"
    unfolding same iq by simp
  finally show ?case .
qed

lemma filter_zip_upt:
  "map fst (filter (\<lambda>iq. P (fst iq) (snd iq)) (zip [0..<length ps] ps))
     = filter (\<lambda>i. P i (ps ! i)) [0..<length ps]"
proof -
  have z: "zip [0..<length ps] ps = map (\<lambda>i. (i, ps ! i)) [0..<length ps]"
    by (rule nth_equalityI) simp_all
  show ?thesis
    unfolding z by (simp add: filter_map comp_def)
qed

lemma reopen_players:
  "reopen p hb (zip [0..<length ps] ps) queue =
     queue @ filter (\<lambda>i. \<not> folded (ps ! i) \<and> ps ! i \<noteq> p \<and> stack (ps ! i) > 0
                        \<and> bet (ps ! i) < hb \<and> i \<notin> set queue) [0..<length ps]"
proof -
  have d: "distinct (map fst (zip [0..<length ps] ps))" by simp
  show ?thesis
    unfolding reopen_filter[OF d]
    using filter_zip_upt[of "\<lambda>i q. \<not> folded q \<and> q \<noteq> p \<and> stack q > 0 \<and> bet q < hb \<and> i \<notin> set queue" ps]
    by simp
qed

text \<open>The effect of a raise, in the two cases of its test.\<close>

lemma apply_raise_over:
  assumes idx: "idx < length (players s)"
      and over: "bet (players s ! idx) + min (call + amt) (stack (players s ! idx)) > hbet s"
  shows "apply_action s idx Raise amt call mr =
           Inr (ToNextAction,
                (commit s idx (call + amt))
                  \<lparr>hbet := bet (players s ! idx) + min (call + amt) (stack (players s ! idx)),
                   aq := aq s @ filter (\<lambda>i. i \<noteq> idx \<and> \<not> folded (players s ! i)
                                    \<and> stack (players s ! i) > 0
                                    \<and> bet (players s ! i)
                                        < bet (players s ! idx)
                                          + min (call + amt) (stack (players s ! idx))
                                    \<and> i \<notin> set (aq s)) [0..<length (players s)]\<rparr>)"
proof -
  let ?s1 = "commit s idx (call + amt)"
  let ?p1 = "players ?s1 ! idx"
  let ?hb = "bet (players s ! idx) + min (call + amt) (stack (players s ! idx))"
  have b1: "bet ?p1 = ?hb" using idx by (simp add: commit_player_same)
  have cond: "(\<not> folded (players ?s1 ! i) \<and> players ?s1 ! i \<noteq> ?p1 \<and> stack (players ?s1 ! i) > 0
                \<and> bet (players ?s1 ! i) < ?hb \<and> i \<notin> set (aq s))
            = (i \<noteq> idx \<and> \<not> folded (players s ! i) \<and> stack (players s ! i) > 0
                \<and> bet (players s ! i) < ?hb \<and> i \<notin> set (aq s))" for i
  proof (cases "i = idx")
    case True
    then show ?thesis by simp
  next
    case False
    then have o: "players ?s1 ! i = players s ! i" by (rule commit_player_other)
    have "bet (players s ! i) < ?hb \<Longrightarrow> players s ! i \<noteq> ?p1"
      using b1 by auto
    then show ?thesis unfolding o using False by auto
  qed
  have "reopen ?p1 ?hb (zip [0..<length (players ?s1)] (players ?s1)) (aq ?s1)
          = aq s @ filter (\<lambda>i. i \<noteq> idx \<and> \<not> folded (players s ! i) \<and> stack (players s ! i) > 0
                              \<and> bet (players s ! i) < ?hb \<and> i \<notin> set (aq s))
                     [0..<length (players s)]"
    unfolding reopen_players by (simp add: cond)
  then show ?thesis
    using idx over b1 by (simp add: apply_action_def Let_def)
qed

lemma apply_raise_under:
  assumes idx: "idx < length (players s)"
      and under: "bet (players s ! idx) + min (call + amt) (stack (players s ! idx)) \<le> hbet s"
  shows "apply_action s idx Raise amt call mr = Inr (ToNextAction, commit s idx (call + amt))"
proof -
  have "bet (players (commit s idx (call + amt)) ! idx)
          = bet (players s ! idx) + min (call + amt) (stack (players s ! idx))"
    using idx by (simp add: commit_player_same)
  then show ?thesis
    using idx under by (simp add: apply_action_def Let_def)
qed

text \<open>
  Claim C2. When a raise is applied and the raiser's bet after the chips are moved
  exceeds the current bet to match, the bet to match becomes that bet, and the action
  queue is extended by exactly the other seats that are not folded, hold a non-zero
  stack, have bet less than the new bet to match and were not in the queue, in seat
  order; nobody else is appended. Stacks are never negative.
\<close>

theorem raise_reopens_action:
  assumes idx: "idx < length (players s)"
      and nonneg: "\<forall>q\<in>set (players s). 0 \<le> stack q"
      and over: "bet (players s ! idx) + min (call + amt) (stack (players s ! idx)) > hbet s"
  shows "\<exists>s'. apply_action s idx Raise amt call mr = Inr (ToNextAction, s')
           \<and> bet (players s' ! idx)
               = bet (players s ! idx) + min (call + amt) (stack (players s ! idx))
           \<and> hbet s' = bet (players s' ! idx)
           \<and> aq s' = aq s @ filter (\<lambda>i. i \<noteq> idx \<and> \<not> folded (players s ! i)
                                   \<and> stack (players s ! i) \<noteq> 0
                                   \<and> bet (players s ! i) < hbet s'
                                   \<and> i \<notin> set (aq s)) [0..<length (players s)]"
proof -
  let ?hb = "bet (players s ! idx) + min (call + amt) (stack (players s ! idx))"
  let ?s' = "(commit s idx (call + amt))
                  \<lparr>hbet := ?hb,
                   aq := aq s @ filter (\<lambda>i. i \<noteq> idx \<and> \<not> folded (players s ! i)
                                    \<and> stack (players s ! i) > 0
                                    \<and> bet (players s ! i) < ?hb
                                    \<and> i \<notin> set (aq s)) [0..<length (players s)]\<rparr>"
  have r: "apply_action s idx Raise amt call mr = Inr (ToNextAction, ?s')"
    by (rule apply_raise_over[OF idx over])
  have b: "bet (players ?s' ! idx) = ?hb"
    using idx by (simp add: commit_player_same)
  have pos: "(stack (players s ! i) > 0) = (stack (players s ! i) \<noteq> 0)"
    if "i \<in> set [0..<length (players s)]" for i
  proof -
    from that have "players s ! i \<in> set (players s)" by simp
    with nonneg have "0 \<le> stack (players s ! i)" by blast
    then show ?thesis by auto
  qed
  have f: "filter (\<lambda>i. i \<noteq> idx \<and> \<not> folded (players s ! i) \<and> stack (players s ! i) > 0
                       \<and> bet (players s ! i) < ?hb \<and> i \<notin> set (aq s)) [0..<length (players s)]
         = filter (\<lambda>i. i \<noteq> idx \<and> \<not> folded (players s ! i) \<and> stack (players s ! i) \<noteq> 0
                       \<and> bet (players s ! i) < ?hb \<and> i \<notin> set (aq s)) [0..<length (players s)]"
    by (rule filter_cong) (use pos in auto)
  show ?thesis
    apply (rule exI[of _ ?s'])
    using r b f by simp
qed

theorem raise_reopens_action_witness:
  "\<exists>s'. apply_action table_before_raise 1 Raise 100 0 50 = Inr (ToNextAction, s')
        \<and> bet (players s' ! 1) = 150 \<and> hbet s' = 150 \<and> aq s' = [0, 2, 3]"
proof -
  have idx: "1 < length (players table_before_raise)"
    by (simp add: table_before_raise_def)
  have nonneg: "\<forall>q\<in>set (players table_before_raise). 0 \<le> stack q"
    by (simp add: table_before_raise_def seat_def)
  have over: "bet (players table_before_raise ! 1)
                + min (0 + 100) (stack (players table_before_raise ! 1))
              > hbet table_before_raise"
    by (simp add: table_before_raise_def seat_def)
  from raise_reopens_action[OF idx nonneg over, of 50] obtain s' where
    r: "apply_action table_before_raise 1 Raise 100 0 50 = Inr (ToNextAction, s')"
    and b: "bet (players s' ! 1) = bet (players table_before_raise ! 1)
               + min (0 + 100) (stack (players table_before_raise ! 1))"
    and h: "hbet s' = bet (players s' ! 1)"
    and q: "aq s' = aq table_before_raise @ filter (\<lambda>i. i \<noteq> 1
                     \<and> \<not> folded (players table_before_raise ! i)
                     \<and> stack (players table_before_raise ! i) \<noteq> 0
                     \<and> bet (players table_before_raise ! i) < hbet s'
                     \<and> i \<notin> set (aq table_before_raise))
                   [0..<length (players table_before_raise)]"
    by blast
  have b': "bet (players s' ! 1) = 150"
    unfolding b by (simp add: table_before_raise_def seat_def)
  have h': "hbet s' = 150" unfolding h b' by (rule refl)
  have q': "aq s' = [0, 2, 3]"
    unfolding q h' by (simp add: table_before_raise_def seat_def upt_rec)
  show ?thesis using r b' h' q' by blast
qed

text \<open>
  Claim C10. When a raise is applied and the raiser's bet after committing
  \<open>min (call + amt) stack\<close> chips does not exceed the bet to match, the bet to match and
  the action queue are left as they were: an all-in for less never reopens the action.
\<close>

theorem under_raise_keeps_queue:
  assumes idx: "idx < length (players s)"
      and under: "bet (players s ! idx) + min (call + amt) (stack (players s ! idx)) \<le> hbet s"
  shows "\<exists>s'. apply_action s idx Raise amt call mr = Inr (ToNextAction, s')
           \<and> bet (players s' ! idx)
               = bet (players s ! idx) + min (call + amt) (stack (players s ! idx))
           \<and> hbet s' = hbet s \<and> aq s' = aq s"
proof -
  have "apply_action s idx Raise amt call mr = Inr (ToNextAction, commit s idx (call + amt))"
    by (rule apply_raise_under[OF idx under])
  moreover have "bet (players (commit s idx (call + amt)) ! idx)
          = bet (players s ! idx) + min (call + amt) (stack (players s ! idx))"
    using idx by (simp add: commit_player_same)
  ultimately show ?thesis by simp
qed

theorem under_raise_keeps_queue_witness:
  "\<exists>s'. apply_action table_short_stack 1 Raise (- 70) 100 200 = Inr (ToNextAction, s')
        \<and> bet (players s' ! 1) = 30 \<and> hbet s' = 100 \<and> aq s' = [2, 3]"
proof -
  have idx: "1 < length (players table_short_stack)"
    by (simp add: table_short_stack_def)
  have under: "bet (players table_short_stack ! 1)
                + min (100 + (- 70)) (stack (players table_short_stack ! 1))
              \<le> hbet table_short_stack"
    by (simp add: table_short_stack_def seat_def)
  from under_raise_keeps_queue[OF idx under, of 200] obtain s' where
    r: "apply_action table_short_stack 1 Raise (- 70) 100 200 = Inr (ToNextAction, s')"
    and b: "bet (players s' ! 1) = bet (players table_short_stack ! 1)
               + min (100 + (- 70)) (stack (players table_short_stack ! 1))"
    and h: "hbet s' = hbet table_short_stack"
    and q: "aq s' = aq table_short_stack"
    by blast
  have b': "bet (players s' ! 1) = 30"
    unfolding b by (simp add: table_short_stack_def seat_def)
  have h': "hbet s' = 100" unfolding h by (simp add: table_short_stack_def)
  have q': "aq s' = [2, 3]" unfolding q by (simp add: table_short_stack_def)
  show ?thesis using r b' h' q' by blast
qed

text \<open>
  Claim C9, as the code has it. Four players hold equal bets, equal to the bet to match,
  and one of them, B, raises. Then every other player who is not folded, holds chips and
  is not already queued is appended to the action queue, in seat order: C and D, and A
  too, the player who acted just before B. Only the raiser is left out.
\<close>

theorem raise_requeues_all_others:
  assumes four: "length (players s) = 4"
      and idx: "idx < 4"
      and equal: "\<forall>i<4. bet (players s ! i) = hbet s"
      and raise: "0 < call + amt" "0 < stack (players s ! idx)"
  shows "\<exists>s'. apply_action s idx Raise amt call mr = Inr (ToNextAction, s')
           \<and> aq s' = aq s @ filter (\<lambda>i. i \<noteq> idx \<and> \<not> folded (players s ! i)
                                   \<and> stack (players s ! i) > 0
                                   \<and> i \<notin> set (aq s)) [0..<4]"
proof -
  let ?hb = "bet (players s ! idx) + min (call + amt) (stack (players s ! idx))"
  have idx': "idx < length (players s)" using four idx by simp
  have over: "?hb > hbet s" using equal idx raise by auto
  have f: "filter (\<lambda>i. i \<noteq> idx \<and> \<not> folded (players s ! i) \<and> stack (players s ! i) > 0
                       \<and> bet (players s ! i) < ?hb \<and> i \<notin> set (aq s)) [0..<4]
         = filter (\<lambda>i. i \<noteq> idx \<and> \<not> folded (players s ! i) \<and> stack (players s ! i) > 0
                       \<and> i \<notin> set (aq s)) [0..<4]"
    by (rule filter_cong) (use equal over in auto)
  show ?thesis
    unfolding apply_raise_over[OF idx' over] four f by simp
qed

theorem raise_requeues_all_others_witness:
  "\<exists>s'. apply_action table_before_raise 1 Raise 100 0 50 = Inr (ToNextAction, s')
        \<and> aq s' = [0, 2, 3]"
proof -
  have four: "length (players table_before_raise) = 4"
    by (simp add: table_before_raise_def)
  have equal: "\<forall>i<4. bet (players table_before_raise ! i) = hbet table_before_raise"
    by (simp add: table_before_raise_def seat_def less_Suc_eq numeral_eq_Suc)
  have st: "0 < stack (players table_before_raise ! 1)"
    by (simp add: table_before_raise_def seat_def)
  from raise_requeues_all_others[OF four _ equal _ st, of 0 100 50] obtain s' where
    r: "apply_action table_before_raise 1 Raise 100 0 50 = Inr (ToNextAction, s')"
    and q: "aq s' = aq table_before_raise @ filter (\<lambda>i. i \<noteq> 1
                     \<and> \<not> folded (players table_before_raise ! i)
                     \<and> stack (players table_before_raise ! i) > 0
                     \<and> i \<notin> set (aq table_before_raise)) [0..<4]"
    by auto
  have q': "aq s' = [0, 2, 3]"
    unfolding q by (simp add: table_before_raise_def seat_def upt_rec)
  show ?thesis using r q' by blast
qed

text \<open>
  The claim as the spec words it fails: with equal bets all round and an empty queue, B's
  raise puts A (seat 0), who acted just before B (seat 1), back into the queue.
\<close>

theorem raise_requeues_predecessor:
  "apply_action table_before_raise 1 Raise 100 0 50 = Inr (ToNextAction, table_after_raise)
   \<and> aq table_before_raise = [] \<and> aq table_after_raise = [0, 2, 3]"
  by (simp add: apply_action_def commit_def Let_def table_before_raise_def
      table_after_raise_def seat_def upt_rec)

section \<open>Chips on the table\<close>

lemma sum_list_int_update:
  "i < length xs \<Longrightarrow> sum_list (xs[i := v]) = sum_list xs - xs ! i + (v :: int)"
proof (induction xs arbitrary: i)
  case Nil
  then show ?case by simp
next
  case (Cons x xs)
  then show ?case by (cases i) simp_all
qed

lemma stacks_update:
  assumes "i < length ps"
  shows "sum_list (map stack (ps[i := q])) = sum_list (map stack ps) - stack (ps ! i) + stack q"
proof -
  have "map stack (ps[i := q]) = (map stack ps)[i := stack q]"
    by (rule map_update)
  then show ?thesis using assms by (simp add: sum_list_int_update)
qed

lemma chips_commit:
  assumes "i < length (players s)"
  shows "chips (commit s i a) = chips s"
  using assms by (simp add: chips_def commit_def Let_def stacks_update)

lemma chips_fields [simp]:
  "chips (s\<lparr>hbet := h\<rparr>) = chips s" "chips (s\<lparr>aq := q\<rparr>) = chips s"
  "chips (s\<lparr>deck := d\<rparr>) = chips s" "chips (s\<lparr>comm := c\<rparr>) = chips s"
  "chips (s\<lparr>dealer := n\<rparr>) = chips s" "chips (s\<lparr>hnum := m\<rparr>) = chips s"
  by (simp_all add: chips_def)

lemma chips_apply_action:
  assumes "apply_action s idx act amt call mr = Inr (k, s')"
  shows "chips s' = chips s"
proof -
  from assms have idx: "idx < length (players s)"
    by (auto simp: apply_action_def split: if_splits)
  show ?thesis
  proof (cases act)
    case Fold
    with assms idx have "s' = s\<lparr>players := (players s)[idx := (players s ! idx)\<lparr>folded := True\<rparr>]\<rparr>"
      by (simp add: apply_action_def Let_def)
    then show ?thesis using idx by (simp add: chips_def stacks_update)
  next
    case Check
    with assms idx show ?thesis by (simp add: apply_action_def Let_def)
  next
    case Call
    with assms idx have "s' = commit s idx call" by (simp add: apply_action_def Let_def)
    then show ?thesis using idx by (simp add: chips_commit)
  next
    case Raise
    let ?s1 = "commit s idx (call + amt)"
    from Raise assms idx have "s' = ?s1 \<or> (\<exists>h q. s' = ?s1\<lparr>hbet := h, aq := q\<rparr>)"
      by (auto simp: apply_action_def Let_def split: if_splits)
    then show ?thesis using idx by (auto simp: chips_commit)
  qed
qed

lemma next_alive_from_bound:
  "next_alive_from ps after offs = Inr (Some i) \<Longrightarrow> i < length ps"
  by (induction offs) (auto simp: Let_def split: if_splits)

lemma next_alive_bound: "next_alive ps after = Inr (Some i) \<Longrightarrow> i < length ps"
  unfolding next_alive_def by (rule next_alive_from_bound)

lemma chips_preflop:
  assumes "preflop s = Inr (k, s')"
  shows "chips s' = chips s"
proof (cases "length (filter (\<lambda>i. stack (players s ! i) > 0) [0..<4]) < 2")
  case True
  with assms show ?thesis
    by (auto simp: preflop_def Let_def split: if_splits)
next
  case False
  let ?s0 = "s\<lparr>hbet := 0\<rparr>"
  from assms False obtain sbi bbi start where
    sbi: "next_alive (players s) (dealer s) = Inr (Some sbi)"
    and bbi: "next_alive (players s) sbi = Inr (Some bbi)"
    and s': "s' = (commit (commit ?s0 sbi (SB s)) bbi (BB s))
                   \<lparr>hbet := bet (players (commit (commit ?s0 sbi (SB s)) bbi (BB s)) ! bbi),
                    aq := order_loop (players (commit (commit ?s0 sbi (SB s)) bbi (BB s))) 4 start []\<rparr>"
    by (auto simp: preflop_def Let_def split: if_splits sum.splits option.splits)
  have 1: "sbi < length (players ?s0)" using next_alive_bound[OF sbi] by simp
  have 2: "bbi < length (players (commit ?s0 sbi (SB s)))" using next_alive_bound[OF bbi] by simp
  show ?thesis
    unfolding s' using chips_commit[OF 2] chips_commit[OF 1] by simp
qed

lemma chips_street:
  assumes "street s nm cs = Inr (k, s')"
  shows "chips s' = chips s"
proof -
  from assms show ?thesis
    by (auto simp: street_def Let_def chips_def comp_def split: if_splits)
qed

lemma chips_next_action:
  assumes "next_action s = Inr (k, s')"
  shows "chips s' = chips s"
  using assms by (auto simp: next_action_def Let_def split: if_splits)

lemma chips_advance:
  assumes "advance s = Inr (k, s')"
  shows "chips s' = chips s"
  using assms by (auto simp: advance_def Let_def split: if_splits)

lemma chips_fire:
  assumes "fire inp (k, s) = Inr (k', s')" and "k \<noteq> ToEndHand"
  shows "chips s' = chips s"
proof (cases k)
  case ToPreflop
  with assms show ?thesis by (simp add: chips_preflop)
next
  case ToNextAction
  with assms show ?thesis by (simp add: chips_next_action)
next
  case ToAdvance
  with assms show ?thesis by (simp add: chips_advance)
next
  case (ToStreet nm n)
  with assms obtain cs d where "street (s\<lparr>deck := d\<rparr>) nm cs = Inr (k', s')"
    by (auto split: sum.splits)
  from chips_street[OF this] show ?thesis by simp
next
  case ToEndHand
  with assms show ?thesis by simp
next
  case (AwaitAction idx call mr)
  with assms show ?thesis by (simp add: chips_apply_action)
next
  case ToDealBtn
  with assms show ?thesis by simp
next
  case ToGameOver
  with assms show ?thesis by simp
qed

lemma chips_play:
  assumes "play inps (k, s) = Inr (k', s')"
  shows "chips s' = chips s"
  using assms
proof (induction inps arbitrary: k s)
  case Nil
  then show ?case by simp
next
  case (Cons inp inps)
  show ?case
  proof (cases "k = ToEndHand")
    case True
    with Cons.prems show ?thesis by simp
  next
    case False
    with Cons.prems obtain k1 s1 where f: "fire inp (k, s) = Inr (k1, s1)"
      and p: "play inps (k1, s1) = Inr (k', s')"
      by (auto split: sum.splits)
    from Cons.IH[OF p] chips_fire[OF f False] show ?thesis by simp
  qed
qed

lemma deal_stacks:
  "deal ps d = Inr (ps', d') \<Longrightarrow> map stack ps' = map stack ps"
  by (induction ps arbitrary: d ps' d') (auto split: if_splits sum.splits prod.splits)

lemma start_hand_dealt:
  assumes "start_hand s shuffled = Inr (ToPreflop, s1)"
  shows "pot s1 = 0 \<and> map stack (players s1) = map stack (players s)"
proof -
  from assms obtain ps d where d: "deal (players s) (shuffled make_deck) = Inr (ps, d)"
    and s1: "s1 = s\<lparr>hnum := hnum s + 1, comm := [], pot := 0, players := ps, deck := d\<rparr>"
    by (auto simp: start_hand_def Let_def split: option.splits if_splits sum.splits)
  from deal_stacks[OF d] s1 show ?thesis by simp
qed

text \<open>
  Claim C1. Take a hand that \<^verbatim>\<open>start_hand\<close> deals from the state \<open>s\<close>, and run its handlers
  (\<^verbatim>\<open>preflop\<close> with the blind posts, \<^verbatim>\<open>next_action\<close>, \<^verbatim>\<open>apply\<close> with any fold, check, call
  or raise of any amount, \<^verbatim>\<open>advance\<close>, \<^verbatim>\<open>street\<close>) for any list of decisions, stopping in
  front of \<^verbatim>\<open>end_hand\<close>. In the state reached, the stacks and the pot add up to the sum of
  the stacks at hand start.
\<close>

theorem chips_conserved:
  assumes "start_hand s shuffled = Inr (ToPreflop, s1)"
      and "play inps (ToPreflop, s1) = Inr (k, s')"
  shows "sum_list (map stack (players s')) + pot s' = sum_list (map stack (players s))"
proof -
  from start_hand_dealt[OF assms(1)] have "chips s1 = sum_list (map stack (players s))"
    by (simp add: chips_def)
  moreover from chips_play[OF assms(2)] have "chips s' = chips s1" .
  ultimately show ?thesis by (simp add: chips_def)
qed

theorem chips_conserved_witness:
  "start_hand table_new_hand rev = Inr (ToPreflop, table_dealt)
   \<and> play hand_inputs (ToPreflop, table_dealt) = Inr (AwaitAction 0 0 50, table_on_flop)
   \<and> sum_list (map stack (players table_on_flop)) + pot table_on_flop = 4000"
proof -
  have a: "start_hand table_new_hand rev = Inr (ToPreflop, table_dealt)"
    by code_simp
  have b: "play hand_inputs (ToPreflop, table_dealt) = Inr (AwaitAction 0 0 50, table_on_flop)"
    by code_simp
  have "sum_list (map stack (players table_on_flop)) + pot table_on_flop
          = sum_list (map stack (players table_new_hand))"
    by (rule chips_conserved[OF a b])
  also have "\<dots> = 4000" by (simp add: table_new_hand_def seat_def)
  finally show ?thesis using a b by simp
qed

end
